theory Spec2Isabelle
  imports Main "HOL-Library.Multiset"
begin

section \<open>Python values used by the scripts\<close>

text \<open>
  A Python \<open>str\<close> is a sequence of Unicode code points, so it is modelled as a list of
  natural numbers (one per character); \<open>ord\<close> reads the code point. Messages and bit
  strings are both values of this one type, as in the source. Python's \<open>int\<close> is
  unbounded and modelled by \<open>int\<close>. Exceptions are values of \<open>error\<close>; a function that
  can raise returns \<open>error + 'a\<close>. Output written with \<open>print\<close> is not modelled.
\<close>

type_synonym pystr = "nat list"

datatype error = ValueError | IndexError | OverflowError | CircuitError

definition lit :: "string \<Rightarrow> pystr" where
  \<comment> \<open>a string literal of the source, as code points\<close>
  "lit s = map of_char s"

definition py_ord :: "nat \<Rightarrow> nat" where
  "py_ord char = char"

definition py_chr :: "int \<Rightarrow> error + nat" where
  \<comment> \<open>\<open>chr(i)\<close>: OverflowError outside the C int range, ValueError outside \<open>range(0x110000)\<close>\<close>
  "py_chr i =
     (if i < - 2147483648 \<or> 2147483647 < i then Inl OverflowError
      else if i < 0 \<or> 1114111 < i then Inl ValueError
      else Inr (nat i))"

fun bin_digits :: "nat \<Rightarrow> pystr" where
  \<comment> \<open>the binary digits of \<open>n\<close>, most significant first, as the characters \<open>0\<close> (48) and \<open>1\<close> (49)\<close>
  "bin_digits n = (if n < 2 then [48 + n] else bin_digits (n div 2) @ [48 + n mod 2])"

declare bin_digits.simps [simp del]

definition format_08b :: "nat \<Rightarrow> pystr" where
  \<comment> \<open>\<open>format(n, '08b')\<close>: the binary digits, padded on the left with \<open>0\<close> to a minimum width of 8\<close>
  "format_08b n = (let d = bin_digits n in replicate (8 - length d) 48 @ d)"

definition is_bit :: "nat \<Rightarrow> bool" where
  "is_bit c = (c = 48 \<or> c = 49)"

definition bits_value :: "pystr \<Rightarrow> int" where
  \<comment> \<open>the number a string of binary digits denotes, most significant digit first\<close>
  "bits_value s = foldl (\<lambda>acc c. 2 * acc + (int c - 48)) 0 s"

definition is_other_digit :: "nat \<Rightarrow> bool" where
  \<comment> \<open>one of the decimal digits \<open>2\<close> (50) to \<open>9\<close> (57), which are no digits in base 2\<close>
  "is_other_digit c = (50 \<le> c \<and> c \<le> 57)"

definition py_int2 :: "(pystr \<Rightarrow> error + int) \<Rightarrow> pystr \<Rightarrow> error + int" where
  \<comment> \<open>\<open>int(s, 2)\<close>. On a non-empty string of the digits \<open>0\<close> and \<open>1\<close> it is the number
      denoted. A string with one of the digits \<open>2\<close> to \<open>9\<close> anywhere in it is no literal
      in base 2: ValueError. On every other string (empty, signed, prefixed with \<open>0b\<close>,
      with underscores or blanks, with other characters) the builtin's answer is the
      parameter \<open>int_rest\<close>, about which nothing is assumed.\<close>
  "py_int2 int_rest s =
     (if s \<noteq> [] \<and> list_all is_bit s then Inr (bits_value s)
      else if list_ex is_other_digit s then Inl ValueError
      else int_rest s)"

section \<open>quantum_text_encoding.py: the codec\<close>

definition text_to_binary :: "pystr \<Rightarrow> pystr" where
  "text_to_binary text = concat (map (\<lambda>char. format_08b (py_ord char)) text)"

text \<open>
  The loop of \<open>binary_to_text\<close>, \<open>for i in range(0, len(binary), 8)\<close>, with the loop
  variable \<open>i\<close> and the accumulator \<open>text\<close> as arguments; \<open>binary[i:i + 8]\<close> is
  \<open>take 8 (drop i binary)\<close>.
\<close>

function binary_to_text_loop ::
  "(pystr \<Rightarrow> error + int) \<Rightarrow> pystr \<Rightarrow> nat \<Rightarrow> pystr \<Rightarrow> error + pystr" where
  "binary_to_text_loop int_rest binary i text =
     (if i < length binary then
        (let byte = take 8 (drop i binary) in
         case py_int2 int_rest byte of
           Inl e \<Rightarrow> Inl e
         | Inr v \<Rightarrow>
             (case py_chr v of
                Inl e \<Rightarrow> Inl e
              | Inr c \<Rightarrow> binary_to_text_loop int_rest binary (i + 8) (text @ [c])))
      else Inr text)"
  by pat_completeness auto
termination
  by (relation "measure (\<lambda>(int_rest, binary, i, text). length binary - i)") auto

declare binary_to_text_loop.simps [simp del]

definition binary_to_text :: "(pystr \<Rightarrow> error + int) \<Rightarrow> pystr \<Rightarrow> error + pystr" where
  "binary_to_text int_rest binary = binary_to_text_loop int_rest binary 0 []"

text \<open>
  The spec's reading of \<open>textToBits\<close>, for comparison with \<open>text_to_binary\<close>: every
  character gives exactly 8 bits, the big-endian representation of its code point
  modulo 256.
\<close>

fun fixed_width_bits :: "nat \<Rightarrow> nat \<Rightarrow> pystr" where
  "fixed_width_bits 0 n = []"
| "fixed_width_bits (Suc k) n = fixed_width_bits k (n div 2) @ [48 + n mod 2]"

definition spec_textToBits :: "pystr \<Rightarrow> pystr" where
  "spec_textToBits msg = concat (map (\<lambda>char. fixed_width_bits 8 (char mod 256)) msg)"

definition fits_8_bits :: "nat \<Rightarrow> bool" where
  \<comment> \<open>a character whose code point is in the range 0 to 255\<close>
  "fits_8_bits char = (char < 256)"

definition reject_rest :: "pystr \<Rightarrow> error + int" where
  \<comment> \<open>an instance of the parameter of \<open>py_int2\<close>, for evaluating at concrete inputs\<close>
  "reject_rest s = Inl ValueError"


section \<open>The simulator behind \<open>execute(qc, backend, shots=1)\<close>\<close>

text \<open>
  Modelled from the spec: the Qiskit library (registers, circuits, the Aer
  \<open>qasm_simulator\<close>, \<open>execute\<close>, \<open>get_counts\<close>) is not among the sources. The scripts use
  two instructions only, the bit flip \<open>x\<close> and \<open>measure\<close>, on qubits that start in state 0,
  and run a single shot; the spec calls this the CircuitExecutor: qubit \<open>i\<close> is 1 iff it was
  flipped, there is no randomness, and the key of the one entry of the counts shows
  classical bit \<open>n - 1\<close> first and classical bit \<open>0\<close> last. A register of size \<open>n\<close> is the
  list of its bit indices; \<open>qr[i]\<close> outside it raises IndexError, and appending an
  instruction on a bit the circuit does not have raises CircuitError.
\<close>

datatype instruction = XGate nat | Measure "nat list" "nat list"

record QuantumCircuit =
  num_qubits :: nat
  num_clbits :: nat
  data :: "instruction list"

definition getitem :: "'a list \<Rightarrow> nat \<Rightarrow> error + 'a" where
  \<comment> \<open>\<open>xs[i]\<close> for an index \<open>i \<ge> 0\<close>\<close>
  "getitem xs i = (if i < length xs then Inr (xs ! i) else Inl IndexError)"

definition QuantumRegister :: "nat \<Rightarrow> nat list" where
  "QuantumRegister n = [0..<n]"

definition ClassicalRegister :: "nat \<Rightarrow> nat list" where
  "ClassicalRegister n = [0..<n]"

definition new_circuit :: "nat list \<Rightarrow> nat list \<Rightarrow> QuantumCircuit" where
  \<comment> \<open>\<open>QuantumCircuit(qr, cr)\<close>\<close>
  "new_circuit qr cr = \<lparr>num_qubits = length qr, num_clbits = length cr, data = []\<rparr>"

definition x_gate :: "nat \<Rightarrow> QuantumCircuit \<Rightarrow> error + QuantumCircuit" where
  \<comment> \<open>\<open>qc.x(q)\<close>\<close>
  "x_gate q qc =
     (if q < num_qubits qc then Inr (qc\<lparr>data := data qc @ [XGate q]\<rparr>) else Inl CircuitError)"

definition measure_bits :: "nat list \<Rightarrow> nat list \<Rightarrow> QuantumCircuit \<Rightarrow> error + QuantumCircuit" where
  \<comment> \<open>\<open>qc.measure(qubits, clbits)\<close>: qubit \<open>k\<close> of the first argument into bit \<open>k\<close> of the second\<close>
  "measure_bits qubits clbits qc =
     (if length qubits = length clbits
         \<and> list_all (\<lambda>q. q < num_qubits qc) qubits
         \<and> list_all (\<lambda>c. c < num_clbits qc) clbits
      then Inr (qc\<lparr>data := data qc @ [Measure qubits clbits]\<rparr>)
      else Inl CircuitError)"

fun apply_instruction :: "instruction \<Rightarrow> bool list \<times> bool list \<Rightarrow> bool list \<times> bool list" where
  "apply_instruction (XGate q) (qubits, clbits) = (qubits[q := \<not> qubits ! q], clbits)"
| "apply_instruction (Measure qsel csel) (qubits, clbits) =
     (qubits, fold (\<lambda>(q, c) cl. cl[c := qubits ! q]) (zip qsel csel) clbits)"

definition run_shot :: "QuantumCircuit \<Rightarrow> bool list \<times> bool list" where
  \<comment> \<open>one shot: all qubits and classical bits start at 0\<close>
  "run_shot qc =
     fold apply_instruction (data qc)
       (replicate (num_qubits qc) False, replicate (num_clbits qc) False)"

definition bit_char :: "bool \<Rightarrow> nat" where
  "bit_char b = (if b then 49 else 48)"

definition counts_key :: "QuantumCircuit \<Rightarrow> pystr" where
  \<comment> \<open>\<open>list(execute(qc, backend, shots=1).result().get_counts(qc).keys())[0]\<close>\<close>
  "counts_key qc = rev (map bit_char (snd (run_shot qc)))"

text \<open>A \<open>for\<close> loop over a finite sequence, stopping at the first exception.\<close>

fun for_loop :: "'i list \<Rightarrow> ('i \<Rightarrow> 's \<Rightarrow> error + 's) \<Rightarrow> 's \<Rightarrow> error + 's" where
  "for_loop [] body s = Inr s"
| "for_loop (i # rest) body s =
     (case body i s of Inl e \<Rightarrow> Inl e | Inr s' \<Rightarrow> for_loop rest body s')"

section \<open>quantum_text_encoding.py: chunks\<close>

definition encode_bit :: "nat list \<Rightarrow> nat \<times> nat \<Rightarrow> QuantumCircuit \<Rightarrow> error + QuantumCircuit" where
  \<comment> \<open>the body of \<open>for i, bit in enumerate(binary_chunk)\<close>\<close>
  "encode_bit qr = (\<lambda>(i, bit) qc.
     if bit = 49 then (case getitem qr i of Inl e \<Rightarrow> Inl e | Inr q \<Rightarrow> x_gate q qc)
     else Inr qc)"

definition prepare_circuit :: "pystr \<Rightarrow> error + QuantumCircuit" where
  \<comment> \<open>lines 24 to 37 of \<open>process_chunk\<close>: registers, bit flips, measurement of all qubits\<close>
  "prepare_circuit binary_chunk =
     (let n_qbits = length binary_chunk;
          qr = QuantumRegister n_qbits;
          cr = ClassicalRegister n_qbits;
          qc = new_circuit qr cr
      in case for_loop (List.enumerate 0 binary_chunk) (encode_bit qr) qc of
           Inl e \<Rightarrow> Inl e
         | Inr qc' \<Rightarrow> measure_bits qr cr qc')"

definition process_chunk :: "pystr \<Rightarrow> error + (pystr \<times> QuantumCircuit)" where
  "process_chunk chunk =
     (let binary_chunk = text_to_binary chunk in
      case prepare_circuit binary_chunk of
        Inl e \<Rightarrow> Inl e
      | Inr qc \<Rightarrow> (let measured = counts_key qc in Inr (rev measured, qc)))"

text \<open>
  The loop \<open>for i in range(0, len(message), chunk_size)\<close>. A positive step visits
  \<open>0, chunk_size, 2 * chunk_size, ...\<close> below \<open>len(message)\<close>; a negative step visits
  nothing; the step 0 makes \<open>range\<close> raise ValueError before the first iteration.
\<close>

function process_message_chunks_loop ::
  "pystr \<Rightarrow> int \<Rightarrow> nat \<Rightarrow> pystr \<times> QuantumCircuit list \<Rightarrow> error + (pystr \<times> QuantumCircuit list)" where
  "process_message_chunks_loop message chunk_size i (result_binary, circuits) =
     (if 0 < chunk_size \<and> i < length message then
        (let chunk = take (nat chunk_size) (drop i message) in
         case process_chunk chunk of
           Inl e \<Rightarrow> Inl e
         | Inr (chunk_binary, circuit) \<Rightarrow>
             process_message_chunks_loop message chunk_size (i + nat chunk_size)
               (result_binary @ chunk_binary, circuits @ [circuit]))
      else Inr (result_binary, circuits))"
  by pat_completeness auto
termination
  by (relation "measure (\<lambda>(message, chunk_size, i, acc). length message - i)") auto

declare process_message_chunks_loop.simps [simp del]

definition process_message_chunks ::
  "pystr \<Rightarrow> int \<Rightarrow> error + (pystr \<times> QuantumCircuit list)" where
  "process_message_chunks message chunk_size =
     (if chunk_size = 0 then Inl ValueError
      else process_message_chunks_loop message chunk_size 0 ([], []))"

definition quantum_text_encoding ::
  "(pystr \<Rightarrow> error + int) \<Rightarrow> pystr \<Rightarrow> int \<Rightarrow> error + pystr" where
  "quantum_text_encoding int_rest message chunk_size =
     (case process_message_chunks message chunk_size of
        Inl e \<Rightarrow> Inl e
      | Inr (result_binary, circuits) \<Rightarrow> binary_to_text int_rest result_binary)"

section \<open>quantum_sort.py\<close>

definition quantum_compare :: "int \<Rightarrow> int \<Rightarrow> error + bool" where
  "quantum_compare a b =
     (let qr = QuantumRegister 1;
          cr = ClassicalRegister 1;
          qc = new_circuit qr cr
      in case (if a > b then (case getitem qr 0 of Inl e \<Rightarrow> Inl e | Inr q \<Rightarrow> x_gate q qc)
               else Inr qc) of
           Inl e \<Rightarrow> Inl e
         | Inr qc1 \<Rightarrow>
             (case getitem qr 0 of Inl e \<Rightarrow> Inl e | Inr q \<Rightarrow>
               (case getitem cr 0 of Inl e \<Rightarrow> Inl e | Inr c \<Rightarrow>
                 (case measure_bits [q] [c] qc1 of Inl e \<Rightarrow> Inl e | Inr qc2 \<Rightarrow>
                    Inr (counts_key qc2 = [49])))))"

text \<open>
  \<open>quantum_bubble_sort\<close> copies its argument and swaps elements of the copy in place.
  Lists are objects in a store: the store is the list of all list objects, a reference
  is a position in it, and \<open>arr.copy()\<close> allocates a new object at the end.
\<close>

type_synonym store = "int list list"

definition compare_and_swap :: "nat \<Rightarrow> nat \<Rightarrow> store \<Rightarrow> error + store" where
  \<comment> \<open>the body of the inner loop, on the object \<open>array_sorted\<close> at index \<open>j\<close>\<close>
  "compare_and_swap array_sorted j h =
     (case getitem (h ! array_sorted) j of Inl e \<Rightarrow> Inl e | Inr x \<Rightarrow>
       (case getitem (h ! array_sorted) (j + 1) of Inl e \<Rightarrow> Inl e | Inr y \<Rightarrow>
         (case quantum_compare x y of Inl e \<Rightarrow> Inl e | Inr is_greater \<Rightarrow>
            if is_greater
            then Inr (h[array_sorted := (h ! array_sorted)[j := y, j + 1 := x]])
            else Inr h)))"

definition quantum_bubble_sort :: "store \<Rightarrow> nat \<Rightarrow> error + (nat \<times> store)" where
  \<comment> \<open>returns the reference of the result and the store after the call\<close>
  "quantum_bubble_sort h arr =
     (let n = length (h ! arr);
          array_sorted = length h;
          h1 = h @ [h ! arr]
      in case for_loop [0..<n]
                (\<lambda>i. for_loop [0..<n - i - 1] (compare_and_swap array_sorted)) h1 of
           Inl e \<Rightarrow> Inl e
         | Inr h' \<Rightarrow> Inr (array_sorted, h'))"


section \<open>Binary digits and the codec\<close>


lemma bits_value_snoc: "bits_value (xs @ [c]) = 2 * bits_value xs + (int c - 48)"
  by (simp add: bits_value_def)

lemma bits_value_zeros: "bits_value (replicate k 48 @ xs) = bits_value xs"
proof -
  have "foldl (\<lambda>acc c. 2 * acc + (int c - 48)) 0 (replicate k 48) = 0"
    by (induction k) simp_all
  then show ?thesis by (simp add: bits_value_def)
qed

lemma bits_value_bounds:
  "list_all is_bit xs \<Longrightarrow> 0 \<le> bits_value xs \<and> bits_value xs < 2 ^ length xs"
proof (induction xs rule: rev_induct)
  case Nil
  show ?case by (simp add: bits_value_def)
next
  case (snoc c xs)
  then have "c = 48 \<or> c = 49" and "0 \<le> bits_value xs" and "bits_value xs < 2 ^ length xs"
    by (simp_all add: is_bit_def)
  then show ?case by (auto simp add: bits_value_snoc)
qed

lemma bin_digits_bits: "list_all is_bit (bin_digits n)"
proof (induction n rule: bin_digits.induct)
  case (1 n)
  show ?case
  proof (cases "n < 2")
    case True
    then have "n = 0 \<or> n = 1" by arith
    then show ?thesis by (auto simp add: bin_digits.simps [of n] is_bit_def)
  next
    case False
    have "n mod 2 = 0 \<or> n mod 2 = 1" by arith
    with False 1 show ?thesis by (auto simp add: bin_digits.simps [of n] is_bit_def)
  qed
qed

lemma bin_digits_nonempty: "bin_digits n \<noteq> []"
  by (simp add: bin_digits.simps [of n])

lemma bin_digits_value: "bits_value (bin_digits n) = int n"
proof (induction n rule: bin_digits.induct)
  case (1 n)
  show ?case
  proof (cases "n < 2")
    case True
    then show ?thesis by (simp add: bin_digits.simps [of n] bits_value_def)
  next
    case False
    with 1 have "bits_value (bin_digits (n div 2)) = int (n div 2)" by simp
    with False show ?thesis
      by (simp add: bin_digits.simps [of n] bits_value_snoc) presburger
  qed
qed

lemma bin_digits_length: "n < 2 ^ Suc k \<Longrightarrow> length (bin_digits n) \<le> Suc k"
proof (induction k arbitrary: n)
  case 0
  then show ?case by (simp add: bin_digits.simps [of n])
next
  case (Suc k)
  show ?case
  proof (cases "n < 2")
    case True
    then show ?thesis by (simp add: bin_digits.simps [of n])
  next
    case False
    from Suc.prems have "n div 2 < 2 ^ Suc k" by simp
    then have "length (bin_digits (n div 2)) \<le> Suc k" by (rule Suc.IH)
    with False show ?thesis by (simp add: bin_digits.simps [of n])
  qed
qed

lemma format_08b_bits: "list_all is_bit (format_08b n)"
proof -
  have "list_all is_bit (replicate k 48)" for k
    by (induction k) (simp_all add: is_bit_def)
  then show ?thesis by (simp add: format_08b_def Let_def bin_digits_bits)
qed

lemma format_08b_value: "bits_value (format_08b n) = int n"
  by (simp add: format_08b_def Let_def bits_value_zeros bin_digits_value)

lemma format_08b_length: "n < 256 \<Longrightarrow> length (format_08b n) = 8"
proof -
  assume "n < 256"
  then have "n < 2 ^ Suc 7" by simp
  then have "length (bin_digits n) \<le> Suc 7" by (rule bin_digits_length)
  then show ?thesis by (simp add: format_08b_def Let_def)
qed

lemma format_08b_nonempty: "format_08b n \<noteq> []"
  by (simp add: format_08b_def Let_def bin_digits_nonempty)

lemma text_to_binary_bits: "list_all is_bit (text_to_binary msg)"
  by (induction msg) (simp_all add: text_to_binary_def format_08b_bits)

lemma text_to_binary_append:
  "text_to_binary (xs @ ys) = text_to_binary xs @ text_to_binary ys"
  by (simp add: text_to_binary_def)

lemma text_to_binary_length:
  "list_all fits_8_bits msg \<Longrightarrow> length (text_to_binary msg) = 8 * length msg"
  by (induction msg) (simp_all add: text_to_binary_def format_08b_length py_ord_def fits_8_bits_def)

text \<open>The decoding loop on a bit string split at a multiple of 8.\<close>

lemma loop_shift:
  "binary_to_text_loop r (pre @ rest) (length pre + i) acc = binary_to_text_loop r rest i acc"
proof (induction r rest i acc rule: binary_to_text_loop.induct)
  case (1 r rest i acc)
  show ?case
  proof (cases "i < length rest")
    case True
    show ?thesis
      apply (subst binary_to_text_loop.simps)
      apply (subst (2) binary_to_text_loop.simps)
      using True 1 by (auto simp add: Let_def add.assoc split: sum.splits)
  next
    case False
    then show ?thesis
      by (simp add: binary_to_text_loop.simps [of r "pre @ rest"] binary_to_text_loop.simps [of r rest])
  qed
qed

lemma loop_prefix:
  "8 dvd length pre \<Longrightarrow> 8 dvd i \<Longrightarrow> i \<le> length pre \<Longrightarrow>
   binary_to_text_loop r (pre @ rest) i acc =
     (case binary_to_text_loop r pre i acc of
        Inl e \<Rightarrow> Inl e
      | Inr t \<Rightarrow> binary_to_text_loop r rest 0 t)"
proof (induction r pre i acc rule: binary_to_text_loop.induct)
  case (1 r pre i acc)
  show ?case
  proof (cases "i < length pre")
    case True
    with "1.prems" have le: "i + 8 \<le> length pre" by (auto elim!: dvdE)
    then have tk: "take 8 (drop i (pre @ rest)) = take 8 (drop i pre)" by simp
    from "1.prems" have d8: "8 dvd i + 8" by simp
    show ?thesis
      apply (subst binary_to_text_loop.simps)
      apply (subst (2) binary_to_text_loop.simps)
      using True le tk d8 "1.prems"(1) "1.IH"
      by (auto simp add: Let_def split: sum.splits)
  next
    case False
    with "1.prems" have "i = length pre" by simp
    then show ?thesis
      using loop_shift [of r pre rest 0 acc]
      by (simp add: binary_to_text_loop.simps [of r pre])
  qed
qed

lemma loop_last_group:
  assumes "rest \<noteq> []" "length rest \<le> 8" "list_all is_bit rest"
  shows "binary_to_text_loop r rest 0 acc = Inr (acc @ [nat (bits_value rest)])"
proof -
  from assms have "0 \<le> bits_value rest" and "bits_value rest < 2 ^ length rest"
    using bits_value_bounds by blast+
  moreover have "(2::int) ^ length rest \<le> 2 ^ 8"
    using assms(2) by (intro power_increasing) simp_all
  ultimately have chr: "py_chr (bits_value rest) = Inr (nat (bits_value rest))"
    by (simp add: py_chr_def)
  from assms have int2: "py_int2 r rest = Inr (bits_value rest)"
    by (simp add: py_int2_def)
  show ?thesis
    apply (subst binary_to_text_loop.simps)
    apply (subst binary_to_text_loop.simps)
    using assms chr int2 by (simp add: Let_def)
qed

lemma loop_total:
  "list_all is_bit binary \<Longrightarrow> \<exists>t. binary_to_text_loop r binary i acc = Inr t"
proof (induction r binary i acc rule: binary_to_text_loop.induct)
  case (1 r binary i acc)
  show ?case
  proof (cases "i < length binary")
    case True
    let ?byte = "take 8 (drop i binary)"
    from "1.prems" have bits: "list_all is_bit ?byte"
      by (auto simp add: list_all_iff dest: in_set_takeD in_set_dropD)
    from True have ne: "?byte \<noteq> []" by simp
    have "0 \<le> bits_value ?byte" and "bits_value ?byte < 2 ^ length ?byte"
      using bits_value_bounds [OF bits] by blast+
    moreover have "(2::int) ^ length ?byte \<le> 2 ^ 8"
      by (intro power_increasing) simp_all
    ultimately have chr: "py_chr (bits_value ?byte) = Inr (nat (bits_value ?byte))"
      by (simp add: py_chr_def)
    from bits ne have int2: "py_int2 r ?byte = Inr (bits_value ?byte)"
      by (simp add: py_int2_def)
    from "1.IH" [OF True refl int2 chr "1.prems"] show ?thesis
      apply (subst binary_to_text_loop.simps)
      using True chr int2 by (simp add: Let_def)
  next
    case False
    then show ?thesis by (simp add: binary_to_text_loop.simps [of r binary])
  qed
qed

lemma roundtrip_codec:
  "list_all fits_8_bits msg \<Longrightarrow> binary_to_text r (text_to_binary msg) = Inr msg"
proof (induction msg rule: rev_induct)
  case Nil
  show ?case
    by (simp add: binary_to_text_def text_to_binary_def binary_to_text_loop.simps)
next
  case (snoc c msg)
  then have c: "c < 256" and all: "list_all fits_8_bits msg"
    by (simp_all add: fits_8_bits_def [of c])
  have len: "length (text_to_binary msg) = 8 * length msg"
    using all by (rule text_to_binary_length)
  have split: "text_to_binary (msg @ [c]) = text_to_binary msg @ format_08b c"
    by (simp add: text_to_binary_def py_ord_def)
  have last: "binary_to_text_loop r (format_08b c) 0 msg = Inr (msg @ [c])"
    using loop_last_group [of "format_08b c" r msg] c
    by (simp add: format_08b_nonempty format_08b_length format_08b_bits format_08b_value)
  show ?case
    unfolding binary_to_text_def split
    using loop_prefix [of "text_to_binary msg" 0 r "format_08b c" "[]"] len
          snoc.IH [OF all] last
    by (simp add: binary_to_text_def)
qed



section \<open>The simulator on the circuits of the scripts\<close>


lemma for_loop_append:
  "for_loop (xs @ ys) body s =
     (case for_loop xs body s of Inl e \<Rightarrow> Inl e | Inr s' \<Rightarrow> for_loop ys body s')"
  by (induction xs arbitrary: s) (simp_all split: sum.splits)

lemma encode_loop_state:
  assumes "length bs \<le> n"
  shows "\<exists>qc. for_loop (List.enumerate 0 bs) (encode_bit (QuantumRegister n))
                 (new_circuit (QuantumRegister n) (ClassicalRegister n)) = Inr qc
            \<and> num_qubits qc = n \<and> num_clbits qc = n
            \<and> fold apply_instruction (data qc) (replicate n False, replicate n False)
                = (map (\<lambda>c. c = 49) bs @ replicate (n - length bs) False, replicate n False)"
  using assms
proof (induction bs rule: rev_induct)
  case Nil
  show ?case
    by (simp add: new_circuit_def QuantumRegister_def ClassicalRegister_def)
next
  case (snoc b bs)
  then have lt: "length bs < n" by simp
  with snoc.IH obtain qc where
    run: "for_loop (List.enumerate 0 bs) (encode_bit (QuantumRegister n))
            (new_circuit (QuantumRegister n) (ClassicalRegister n)) = Inr qc"
    and nq: "num_qubits qc = n" and nc: "num_clbits qc = n"
    and st: "fold apply_instruction (data qc) (replicate n False, replicate n False)
               = (map (\<lambda>c. c = 49) bs @ replicate (n - length bs) False, replicate n False)"
    by auto
  have enum: "List.enumerate 0 (bs @ [b]) = List.enumerate 0 bs @ [(length bs, b)]"
    by (simp add: enumerate_append_eq)
  from lt have rep: "replicate (n - length bs) False = False # replicate (n - Suc (length bs)) False"
    by (cases "n - length bs") simp_all
  show ?case
  proof (cases "b = 49")
    case True
    let ?qc = "qc\<lparr>data := data qc @ [XGate (length bs)]\<rparr>"
    have "encode_bit (QuantumRegister n) (length bs, b) qc = Inr ?qc"
      using True lt nq
      by (simp add: encode_bit_def getitem_def QuantumRegister_def x_gate_def)
    then have "for_loop (List.enumerate 0 (bs @ [b])) (encode_bit (QuantumRegister n))
            (new_circuit (QuantumRegister n) (ClassicalRegister n)) = Inr ?qc"
      using run by (simp add: enum for_loop_append)
    moreover have "fold apply_instruction (data ?qc) (replicate n False, replicate n False)
        = (map (\<lambda>c. c = 49) (bs @ [b]) @ replicate (n - length (bs @ [b])) False, replicate n False)"
      using True st rep by (simp add: nth_append list_update_append)
    ultimately show ?thesis using nq nc by simp
  next
    case False
    have "encode_bit (QuantumRegister n) (length bs, b) qc = Inr qc"
      using False by (simp add: encode_bit_def)
    then have "for_loop (List.enumerate 0 (bs @ [b])) (encode_bit (QuantumRegister n))
            (new_circuit (QuantumRegister n) (ClassicalRegister n)) = Inr qc"
      using run by (simp add: enum for_loop_append)
    moreover have "fold apply_instruction (data qc) (replicate n False, replicate n False)
        = (map (\<lambda>c. c = 49) (bs @ [b]) @ replicate (n - length (bs @ [b])) False, replicate n False)"
      using False st rep by simp
    ultimately show ?thesis using nq nc by simp
  qed
qed

lemma measure_all_prefix:
  "k \<le> length qubits \<Longrightarrow> length cl = length qubits \<Longrightarrow>
   fold (\<lambda>(q, c) cl. cl[c := qubits ! q]) (zip [0..<k] [0..<k]) cl = take k qubits @ drop k cl"
proof (induction k)
  case 0
  show ?case by simp
next
  case (Suc k)
  then have lt: "k < length qubits" and IH:
    "fold (\<lambda>(q, c) cl. cl[c := qubits ! q]) (zip [0..<k] [0..<k]) cl = take k qubits @ drop k cl"
    by simp_all
  have "(take k qubits @ drop k cl)[k := qubits ! k] = take (Suc k) qubits @ drop (Suc k) cl"
    using lt Suc.prems(2)
    by (simp add: list_update_append take_Suc_conv_app_nth upd_conv_take_nth_drop)
  then show ?case using IH by simp
qed

lemma measure_all:
  "length cl = length qubits \<Longrightarrow>
   fold (\<lambda>(q, c) cl. cl[c := qubits ! q]) (zip [0..<length qubits] [0..<length qubits]) cl = qubits"
  using measure_all_prefix [of "length qubits" qubits cl] by simp

lemma prepare_circuit_key:
  "\<exists>qc. prepare_circuit bs = Inr qc
       \<and> counts_key qc = rev (map (\<lambda>c. bit_char (c = 49)) bs)"
proof -
  let ?n = "length bs"
  obtain qc where
    run: "for_loop (List.enumerate 0 bs) (encode_bit (QuantumRegister ?n))
            (new_circuit (QuantumRegister ?n) (ClassicalRegister ?n)) = Inr qc"
    and nq: "num_qubits qc = ?n" and nc: "num_clbits qc = ?n"
    and st: "fold apply_instruction (data qc) (replicate ?n False, replicate ?n False)
               = (map (\<lambda>c. c = 49) bs, replicate ?n False)"
    using encode_loop_state [of bs ?n] by auto
  let ?qc = "qc\<lparr>data := data qc @ [Measure [0..<?n] [0..<?n]]\<rparr>"
  have valid: "list_all (\<lambda>q. q < ?n) [0..<?n]" by (simp add: list_all_iff)
  have prep: "prepare_circuit bs = Inr ?qc"
    using run nq nc valid
    by (simp add: prepare_circuit_def Let_def measure_bits_def QuantumRegister_def ClassicalRegister_def)
  have "snd (run_shot ?qc) = map (\<lambda>c. c = 49) bs"
    using st nq nc measure_all [of "replicate ?n False" "map (\<lambda>c. c = 49) bs"]
    by (simp add: run_shot_def)
  then have "counts_key ?qc = rev (map (\<lambda>c. bit_char (c = 49)) bs)"
    by (simp add: counts_key_def comp_def)
  with prep show ?thesis by blast
qed

lemma bit_char_of_bit: "is_bit c \<Longrightarrow> bit_char (c = 49) = c"
  by (auto simp add: is_bit_def bit_char_def)

lemma process_chunk_bits:
  "\<exists>qc. process_chunk chunk = Inr (text_to_binary chunk, qc)"
proof -
  obtain qc where prep: "prepare_circuit (text_to_binary chunk) = Inr qc"
    and key: "counts_key qc = rev (map (\<lambda>c. bit_char (c = 49)) (text_to_binary chunk))"
    using prepare_circuit_key by blast
  have "map (\<lambda>c. bit_char (c = 49)) (text_to_binary chunk) = text_to_binary chunk"
    using text_to_binary_bits [of chunk]
    by (simp add: map_idI list_all_iff bit_char_of_bit)
  with prep key show ?thesis by (simp add: process_chunk_def Let_def)
qed

lemma chunks_loop_bits:
  "0 < chunk_size \<Longrightarrow>
   \<exists>cs. process_message_chunks_loop message chunk_size i (result_binary, circuits)
          = Inr (result_binary @ text_to_binary (drop i message), cs)"
proof (induction message chunk_size i "(result_binary, circuits)"
       arbitrary: result_binary circuits rule: process_message_chunks_loop.induct)
  case (1 message chunk_size i result_binary circuits)
  show ?case
  proof (cases "i < length message")
    case True
    let ?chunk = "take (nat chunk_size) (drop i message)"
    obtain qc where pc: "process_chunk ?chunk = Inr (text_to_binary ?chunk, qc)"
      using process_chunk_bits by blast
    have "\<exists>cs. process_message_chunks_loop message chunk_size (i + nat chunk_size)
            (result_binary @ text_to_binary ?chunk, circuits @ [qc])
          = Inr ((result_binary @ text_to_binary ?chunk)
                   @ text_to_binary (drop (i + nat chunk_size) message), cs)"
      using "1.hyps" [of ?chunk "(text_to_binary ?chunk, qc)" "text_to_binary ?chunk" qc]
            True "1.prems" pc by simp
    moreover have "text_to_binary ?chunk @ text_to_binary (drop (i + nat chunk_size) message)
        = text_to_binary (drop i message)"
    proof -
      have "?chunk @ drop (i + nat chunk_size) message = drop i message"
        using append_take_drop_id [of "nat chunk_size" "drop i message"]
        by (simp add: add.commute)
      then show ?thesis
        by (simp only: text_to_binary_append [symmetric])
    qed
    ultimately show ?thesis
      apply (subst process_message_chunks_loop.simps)
      using True "1.prems" pc by (simp add: Let_def)
  next
    case False
    then show ?thesis
      by (simp add: process_message_chunks_loop.simps [of message chunk_size i]
            text_to_binary_def)
  qed
qed



section \<open>Helper facts for the claims\<close>

lemma chunks_bits:
  "1 \<le> chunk_size \<Longrightarrow>
   \<exists>cs. process_message_chunks message chunk_size = Inr (text_to_binary message, cs)"
  using chunks_loop_bits [of chunk_size message 0 "[]" "[]"]
  by (simp add: process_message_chunks_def)


lemma bin_digits_leading_one: "0 < n \<Longrightarrow> hd (bin_digits n) = 49"
proof (induction n rule: bin_digits.induct)
  case (1 n)
  show ?case
  proof (cases "n < 2")
    case True
    with "1.prems" have "n = 1" by simp
    then show ?thesis by (subst bin_digits.simps) simp
  next
    case False
    then have "0 < n div 2" by simp
    with False "1.IH" have "hd (bin_digits (n div 2)) = 49" by simp
    with False show ?thesis
      by (simp add: bin_digits.simps [of n] bin_digits_nonempty)
  qed
qed

lemma wide_character_bits:
  assumes "\<not> fits_8_bits char"
  shows "text_to_binary [char] = bin_digits char"
    and "8 < length (text_to_binary [char])"
    and "hd (text_to_binary [char]) = 49"
    and "bits_value (text_to_binary [char]) = int char"
proof -
  from assms have big: "256 \<le> char" by (simp add: fits_8_bits_def)
  have "int char < 2 ^ length (bin_digits char)"
    using bits_value_bounds [OF bin_digits_bits [of char]] by (simp add: bin_digits_value)
  moreover have "(2::int) ^ length (bin_digits char) \<le> 2 ^ 8" if "length (bin_digits char) \<le> 8"
    using that by (intro power_increasing) simp_all
  ultimately have len: "8 < length (bin_digits char)"
  proof (cases "length (bin_digits char) \<le> 8")
    case True
    assume a: "int char < 2 ^ length (bin_digits char)"
      and b: "length (bin_digits char) \<le> 8 \<Longrightarrow> (2::int) ^ length (bin_digits char) \<le> 2 ^ 8"
    have "int char < 2 ^ 8" using b [OF True] a by (rule less_le_trans [rotated])
    then have "int char < 256" by simp
    with big show ?thesis by simp
  next
    case False
    then show ?thesis by simp
  qed
  then show eq: "text_to_binary [char] = bin_digits char"
    by (simp add: text_to_binary_def format_08b_def Let_def py_ord_def)
  show "8 < length (text_to_binary [char])" using len eq by simp
  show "hd (text_to_binary [char]) = 49"
    using big eq bin_digits_leading_one [of char] by simp
  show "bits_value (text_to_binary [char]) = int char"
    using eq by (simp add: bin_digits_value)
qed

lemma text_to_binary_per_character:
  "text_to_binary msg = concat (map (\<lambda>char. text_to_binary [char]) msg)"
  by (simp add: text_to_binary_def)


lemma format_08b_fixed:
  "n < 2 ^ Suc k \<Longrightarrow>
   replicate (Suc k - length (bin_digits n)) 48 @ bin_digits n = fixed_width_bits (Suc k) n"
proof (induction k arbitrary: n)
  case 0
  then show ?case by (simp add: bin_digits.simps [of n])
next
  case (Suc k)
  show ?case
  proof (cases "n < 2")
    case True
    have zeros: "fixed_width_bits j 0 = replicate j 48" for j
      by (induction j) (simp_all add: replicate_append_same)
    from True show ?thesis
      by (simp add: bin_digits.simps [of n] zeros replicate_append_same)
  next
    case False
    from Suc.prems have "n div 2 < 2 ^ Suc k" by simp
    then have "replicate (Suc k - length (bin_digits (n div 2))) 48 @ bin_digits (n div 2)
                 = fixed_width_bits (Suc k) (n div 2)"
      by (rule Suc.IH)
    with False show ?thesis by (simp add: bin_digits.simps [of n])
  qed
qed

text \<open>
  The bubble sort. One pass of the inner loop over \<open>j = 0, ..., k - 1\<close> moves the
  greatest of the first \<open>k + 1\<close> elements to position \<open>k\<close>, permutes those elements
  among themselves and leaves the rest in place. After \<open>i\<close> rounds of the outer loop
  every element at a position from \<open>n - i\<close> on is at least as large as every element
  before it.
\<close>

lemma quantum_compare_result: "quantum_compare x y = Inr (y < x)"
  by (simp add: quantum_compare_def Let_def QuantumRegister_def ClassicalRegister_def
        new_circuit_def getitem_def x_gate_def measure_bits_def counts_key_def run_shot_def
        bit_char_def)

lemma compare_and_swap_result:
  assumes "a < length h" and "Suc j < length (h ! a)"
  shows "compare_and_swap a j h =
           Inr (h[a := (if (h ! a) ! Suc j < (h ! a) ! j
                        then (h ! a)[j := (h ! a) ! Suc j, Suc j := (h ! a) ! j]
                        else h ! a)])"
  using assms
  by (simp add: compare_and_swap_def getitem_def quantum_compare_result)

lemma swap_step:
  fixes ys :: "int list"
  assumes top: "\<forall>p\<le>k. ys ! p \<le> ys ! k" and len: "Suc k < length ys"
  defines "zs \<equiv> (if ys ! Suc k < ys ! k then ys[k := ys ! Suc k, Suc k := ys ! k] else ys)"
  shows "length zs = length ys" and "mset zs = mset ys"
    and "\<forall>p\<le>Suc k. zs ! p \<le> zs ! Suc k"
    and "\<forall>p. Suc k < p \<longrightarrow> zs ! p = ys ! p"
    and "\<forall>p\<le>Suc k. \<exists>p'\<le>Suc k. zs ! p = ys ! p'"
proof -
  show "length zs = length ys" by (simp add: zs_def)
  show "mset zs = mset ys"
    using len mset_swap [of "Suc k" ys k] by (simp add: zs_def)
  show "\<forall>p\<le>Suc k. zs ! p \<le> zs ! Suc k"
  proof (intro allI impI)
    fix p assume p: "p \<le> Suc k"
    show "zs ! p \<le> zs ! Suc k"
    proof (cases "ys ! Suc k < ys ! k")
      case True
      then show ?thesis using p top len
        by (cases "p = Suc k"; cases "p = k") (auto simp add: zs_def nth_list_update)
    next
      case False
      show ?thesis
      proof (cases "p = Suc k")
        case True then show ?thesis by simp
      next
        case ne: False
        with p have "p \<le> k" by simp
        with top have "ys ! p \<le> ys ! k" by blast
        with False show ?thesis by (simp add: zs_def)
      qed
    qed
  qed
  show "\<forall>p. Suc k < p \<longrightarrow> zs ! p = ys ! p"
    by (simp add: zs_def)
  show "\<forall>p\<le>Suc k. \<exists>p'\<le>Suc k. zs ! p = ys ! p'"
  proof (intro allI impI)
    fix p assume p: "p \<le> Suc k"
    show "\<exists>p'\<le>Suc k. zs ! p = ys ! p'"
    proof (cases "ys ! Suc k < ys ! k")
      case True
      have "zs ! p = ys ! (if p = k then Suc k else if p = Suc k then k else p)"
        using True len p by (simp add: zs_def nth_list_update)
      moreover have "(if p = k then Suc k else if p = Suc k then k else p) \<le> Suc k"
        using p by simp
      ultimately show ?thesis by blast
    next
      case False
      then have "zs ! p = ys ! p" by (simp add: zs_def)
      with p show ?thesis by blast
    qed
  qed
qed

lemma inner_pass:
  assumes a: "a < length h" and k: "k < length (h ! a)"
  shows "\<exists>ys. for_loop [0..<k] (compare_and_swap a) h = Inr (h[a := ys])
            \<and> length ys = length (h ! a) \<and> mset ys = mset (h ! a)
            \<and> (\<forall>p\<le>k. ys ! p \<le> ys ! k)
            \<and> (\<forall>p. k < p \<longrightarrow> ys ! p = (h ! a) ! p)
            \<and> (\<forall>p\<le>k. \<exists>p'\<le>k. ys ! p = (h ! a) ! p')"
  using k
proof (induction k)
  case 0
  have "for_loop [0..<0] (compare_and_swap a) h = Inr (h[a := h ! a])" by simp
  then show ?case by (intro exI [of _ "h ! a"]) simp
next
  case (Suc k)
  then have "k < length (h ! a)" by simp
  with Suc.IH obtain ys where
    run: "for_loop [0..<k] (compare_and_swap a) h = Inr (h[a := ys])"
    and len: "length ys = length (h ! a)" and ms: "mset ys = mset (h ! a)"
    and top: "\<forall>p\<le>k. ys ! p \<le> ys ! k"
    and frame: "\<forall>p. k < p \<longrightarrow> ys ! p = (h ! a) ! p"
    and perm: "\<forall>p\<le>k. \<exists>p'\<le>k. ys ! p = (h ! a) ! p'"
    by blast
  define zs where "zs = (if ys ! Suc k < ys ! k then ys[k := ys ! Suc k, Suc k := ys ! k] else ys)"
  from Suc.prems len have len': "Suc k < length ys" by simp
  note st = swap_step [OF top len', folded zs_def]
  have "compare_and_swap a k (h[a := ys]) = Inr ((h[a := ys])[a := zs])"
    using compare_and_swap_result [of a "h[a := ys]" k] a len' by (simp add: zs_def)
  then have step: "compare_and_swap a k (h[a := ys]) = Inr (h[a := zs])" by simp
  have run': "for_loop [0..<Suc k] (compare_and_swap a) h = Inr (h[a := zs])"
    using run step by (simp add: for_loop_append)
  have frame': "\<forall>p. Suc k < p \<longrightarrow> zs ! p = (h ! a) ! p"
    using st(4) frame by simp
  have perm': "\<forall>p\<le>Suc k. \<exists>p'\<le>Suc k. zs ! p = (h ! a) ! p'"
  proof (intro allI impI)
    fix p assume "p \<le> Suc k"
    with st(5) obtain q where q: "q \<le> Suc k" and zq: "zs ! p = ys ! q" by blast
    show "\<exists>p'\<le>Suc k. zs ! p = (h ! a) ! p'"
    proof (cases "q = Suc k")
      case True
      with frame zq have "zs ! p = (h ! a) ! Suc k" by simp
      then show ?thesis by blast
    next
      case False
      with q have "q \<le> k" by simp
      with perm obtain p' where "p' \<le> k" and "ys ! q = (h ! a) ! p'" by blast
      with zq have "p' \<le> Suc k" and "zs ! p = (h ! a) ! p'" by simp_all
      then show ?thesis by blast
    qed
  qed
  show ?case
    using run' st(1) st(2) st(3) len ms frame' perm' by (intro exI [of _ zs]) simp
qed

lemma outer_pass:
  assumes a: "a < length h" and n: "n = length (h ! a)" and i: "i \<le> n"
  shows "\<exists>ys. for_loop [0..<i] (\<lambda>i. for_loop [0..<n - i - 1] (compare_and_swap a)) h
              = Inr (h[a := ys])
            \<and> length ys = n \<and> mset ys = mset (h ! a)
            \<and> (\<forall>p q. p \<le> q \<and> n - i \<le> q \<and> q < n \<longrightarrow> ys ! p \<le> ys ! q)"
  using i
proof (induction i)
  case 0
  have "for_loop [0..<0] (\<lambda>i. for_loop [0..<n - i - 1] (compare_and_swap a)) h
          = Inr (h[a := h ! a])" by simp
  then show ?case using n by (intro exI [of _ "h ! a"]) simp
next
  case (Suc i)
  then have lt: "i < n" by simp
  with Suc.IH obtain ys where
    run: "for_loop [0..<i] (\<lambda>i. for_loop [0..<n - i - 1] (compare_and_swap a)) h
            = Inr (h[a := ys])"
    and len: "length ys = n" and ms: "mset ys = mset (h ! a)"
    and inv: "\<forall>p q. p \<le> q \<and> n - i \<le> q \<and> q < n \<longrightarrow> ys ! p \<le> ys ! q"
    by auto
  let ?h = "h[a := ys]" and ?k = "n - i - 1"
  have a': "a < length ?h" using a by simp
  have cur: "?h ! a = ys" using a by simp
  have k: "?k < length (?h ! a)" using lt len cur by simp
  from inner_pass [OF a' k] obtain zs where
    pass: "for_loop [0..<?k] (compare_and_swap a) ?h = Inr (?h[a := zs])"
    and zlen: "length zs = length ys" and zms: "mset zs = mset ys"
    and top: "\<forall>p\<le>?k. zs ! p \<le> zs ! ?k"
    and frame: "\<forall>p. ?k < p \<longrightarrow> zs ! p = ys ! p"
    and perm: "\<forall>p\<le>?k. \<exists>p'\<le>?k. zs ! p = ys ! p'"
    unfolding cur by blast
  have run': "for_loop [0..<Suc i] (\<lambda>i. for_loop [0..<n - i - 1] (compare_and_swap a)) h
                = Inr (h[a := zs])"
    using run pass by (simp add: for_loop_append)
  have inv': "\<forall>p q. p \<le> q \<and> n - Suc i \<le> q \<and> q < n \<longrightarrow> zs ! p \<le> zs ! q"
  proof (intro allI impI)
    fix p q assume pq: "p \<le> q \<and> n - Suc i \<le> q \<and> q < n"
    show "zs ! p \<le> zs ! q"
    proof (cases "q = ?k")
      case True
      with pq top show ?thesis by simp
    next
      case False
      with pq have q: "?k < q" "n - i \<le> q" "q < n" by auto
      with frame have zq: "zs ! q = ys ! q" by simp
      show ?thesis
      proof (cases "?k < p")
        case True
        with frame have "zs ! p = ys ! p" by simp
        with zq inv pq q show ?thesis by simp
      next
        case False
        then have "p \<le> ?k" by simp
        with perm obtain p' where p': "p' \<le> ?k" and zp: "zs ! p = ys ! p'" by blast
        from p' q have "p' \<le> q" by simp
        with inv q have "ys ! p' \<le> ys ! q" by blast
        with zp zq show ?thesis by simp
      qed
    qed
  qed
  show ?case
    using run' zlen zms len ms inv' by (intro exI [of _ zs]) simp
qed

lemma bubble_sort_result:
  assumes "arr < length h"
  shows "\<exists>ys. quantum_bubble_sort h arr = Inr (length h, h @ [ys])
            \<and> sorted ys \<and> mset ys = mset (h ! arr)"
proof -
  let ?h1 = "h @ [h ! arr]" and ?a = "length h" and ?n = "length (h ! arr)"
  have a: "?a < length ?h1" by simp
  have n: "?n = length (?h1 ! ?a)" by simp
  from outer_pass [OF a n order_refl] obtain ys where
    run: "for_loop [0..<?n] (\<lambda>i. for_loop [0..<?n - i - 1] (compare_and_swap ?a)) ?h1
            = Inr (?h1[?a := ys])"
    and len: "length ys = ?n" and ms: "mset ys = mset (h ! arr)"
    and inv: "\<forall>p q. p \<le> q \<and> ?n - ?n \<le> q \<and> q < ?n \<longrightarrow> ys ! p \<le> ys ! q"
    by auto
  have "sorted ys"
    using inv len by (simp add: sorted_iff_nth_mono)
  moreover have "quantum_bubble_sort h arr = Inr (length h, h @ [ys])"
    using run by (simp add: quantum_bubble_sort_def Let_def)
  ultimately show ?thesis using ms by blast
qed

section \<open>The claims\<close>

subsection \<open>C10: the letter A\<close>

text \<open>
  C10. \<open>text_to_binary("A")\<close> is \<open>"01000001"\<close>, and \<open>binary_to_text("01000001")\<close> is \<open>"A"\<close>.
\<close>

theorem text_to_binary_letter_A:
  "text_to_binary (lit ''A'') = lit ''01000001''
   \<and> binary_to_text int_rest (lit ''01000001'') = Inr (lit ''A'')"
proof
  show "text_to_binary (lit ''A'') = lit ''01000001''" by code_simp
  show "binary_to_text int_rest (lit ''01000001'') = Inr (lit ''A'')"
    by (simp add: binary_to_text_def binary_to_text_loop.simps lit_def py_int2_def
          is_bit_def bits_value_def py_chr_def)
qed

subsection \<open>C1: the round trip\<close>

text \<open>
  C1. For every message whose characters have code points 0 to 255 and every chunk size
  of at least 1, \<open>quantum_text_encoding\<close> returns the message.
\<close>

theorem round_trip:
  assumes "list_all fits_8_bits message" and "1 \<le> chunk_size"
  shows "quantum_text_encoding int_rest message chunk_size = Inr message"
proof -
  obtain circuits where
    "process_message_chunks message chunk_size = Inr (text_to_binary message, circuits)"
    using chunks_bits [OF assms(2)] by blast
  then show ?thesis
    using roundtrip_codec [OF assms(1)] by (simp add: quantum_text_encoding_def)
qed

theorem round_trip_witness:
  "list_all fits_8_bits (lit ''Hello'') \<and> (1::int) \<le> 2
   \<and> quantum_text_encoding reject_rest (lit ''Hello'') 2 = Inr (lit ''Hello'')"
proof -
  have h: "list_all fits_8_bits (lit ''Hello'')" by (simp add: lit_def fits_8_bits_def)
  have c: "(1::int) \<le> 2" by simp
  show ?thesis using h c round_trip [OF h c, of reject_rest] by simp
qed

subsection \<open>C2: the comparison\<close>

text \<open>
  C2. For all integers \<open>a\<close> and \<open>b\<close>, \<open>quantum_compare(a, b)\<close> returns the truth value of
  \<open>a > b\<close>: the single shot of a circuit with at most one bit flip has one outcome.
\<close>

theorem quantum_compare_greater: "quantum_compare a b = Inr (a > b)"
  by (simp add: quantum_compare_def Let_def QuantumRegister_def ClassicalRegister_def
        new_circuit_def getitem_def x_gate_def measure_bits_def counts_key_def run_shot_def
        bit_char_def)

subsection \<open>C3: a trailing group of fewer than 8 bits\<close>

text \<open>
  The 7 bits \<open>0100000\<close> are not dropped: the slice \<open>binary[0:8]\<close> is the whole string,
  \<open>int\<close> reads it as 32, and the result is one blank.
\<close>

theorem partial_group_counterexample:
  "binary_to_text reject_rest (lit ''0100000'') = Inr (lit '' '')
   \<and> binary_to_text reject_rest (lit ''0100000'') \<noteq> Inr (lit '''')"
  by (simp add: binary_to_text_def binary_to_text_loop.simps lit_def py_int2_def
        is_bit_def bits_value_def py_chr_def)

text \<open>
  C3, amended. For every bit string whose length is not a multiple of 8,
  \<open>binary_to_text\<close> decodes the full groups of 8 and then the trailing group of fewer
  than 8 bits as one more character, whose code point is the number those bits denote.
\<close>

theorem partial_group_decoded:
  assumes "list_all is_bit bits" and "length bits mod 8 \<noteq> 0"
  shows "\<exists>t. binary_to_text int_rest (take (length bits - length bits mod 8) bits) = Inr t
            \<and> binary_to_text int_rest bits
                = Inr (t @ [nat (bits_value (drop (length bits - length bits mod 8) bits))])"
proof -
  let ?m = "length bits - length bits mod 8"
  let ?pre = "take ?m bits" and ?rest = "drop ?m bits"
  have m: "?m \<le> length bits" by simp
  have lpre: "length ?pre = ?m" by simp
  have dvd: "8 dvd length ?pre"
    unfolding lpre by (metis dvd_minus_mod)
  have lrest: "length ?rest = length bits mod 8" by simp
  have ne: "?rest \<noteq> []" using assms(2) lrest by (metis length_0_conv)
  have le: "length ?rest \<le> 8" unfolding lrest by simp
  have bpre: "list_all is_bit ?pre" and brest: "list_all is_bit ?rest"
    using assms(1) by (auto simp add: list_all_iff dest: in_set_takeD in_set_dropD)
  obtain t where t: "binary_to_text int_rest ?pre = Inr t"
    using loop_total [OF bpre, of int_rest 0 "[]"] by (auto simp add: binary_to_text_def)
  have "binary_to_text int_rest (?pre @ ?rest) = binary_to_text_loop int_rest ?rest 0 t"
    using loop_prefix [OF dvd, of 0 int_rest ?rest "[]"] t
    by (simp add: binary_to_text_def)
  also have "\<dots> = Inr (t @ [nat (bits_value ?rest)])"
    using ne le brest by (rule loop_last_group)
  finally show ?thesis using t by simp
qed

theorem partial_group_decoded_witness:
  "list_all is_bit (lit ''010000010100000'') \<and> length (lit ''010000010100000'') mod 8 \<noteq> 0
   \<and> binary_to_text reject_rest (lit ''010000010100000'') = Inr (lit ''A '')"
proof -
  have h: "list_all is_bit (lit ''010000010100000'')" by (simp add: lit_def is_bit_def)
  have l: "length (lit ''010000010100000'') mod 8 \<noteq> 0" by (simp add: lit_def)
  have pre: "binary_to_text reject_rest (lit ''01000001'') = Inr (lit ''A'')"
    by (simp add: binary_to_text_def binary_to_text_loop.simps lit_def py_int2_def
          is_bit_def bits_value_def py_chr_def)
  show ?thesis
    using h l partial_group_decoded [OF h l, of reject_rest] pre
    by (simp add: lit_def bits_value_def)
qed


subsection \<open>C4: bits per character\<close>

text \<open>
  \<open>format(n, '08b')\<close> pads to a minimum width of 8 and never cuts: the character with
  code point 256 gives the 9 bits \<open>100000000\<close>, not the 8 bits of \<open>256 mod 256\<close>.
\<close>

theorem wide_character_counterexample:
  "text_to_binary [256] = lit ''100000000''
   \<and> length (text_to_binary [256]) \<noteq> 8 * length [256::nat]
   \<and> text_to_binary [256] \<noteq> spec_textToBits [256]"
  by code_simp

text \<open>
  C4, amended. The output of \<open>text_to_binary\<close> is the concatenation, in order, of the
  bits of each character. A character with a code point from 0 to 255 gives exactly
  8 bits, the big-endian 8-bit representation of the code point, so a text of such
  characters gives 8 times as many bits as it has characters. A character with a code
  point above 255 is not reduced modulo 256: it gives its whole binary representation,
  which has more than 8 digits, begins with 1 and denotes the code point itself.
\<close>

theorem text_to_binary_8_bits:
  "text_to_binary message = concat (map (\<lambda>char. text_to_binary [char]) message)
   \<and> (list_all fits_8_bits message \<longrightarrow>
        text_to_binary message = spec_textToBits message
        \<and> length (text_to_binary message) = 8 * length message)
   \<and> (\<not> fits_8_bits wide \<longrightarrow>
        8 < length (text_to_binary [wide])
        \<and> list_all is_bit (text_to_binary [wide])
        \<and> hd (text_to_binary [wide]) = 49
        \<and> bits_value (text_to_binary [wide]) = int wide)"
proof (intro conjI impI)
  show "text_to_binary message = concat (map (\<lambda>char. text_to_binary [char]) message)"
    by (rule text_to_binary_per_character)
next
  assume fits: "list_all fits_8_bits message"
  have "format_08b c = fixed_width_bits 8 (c mod 256)" if "c < 256" for c
  proof -
    from that have "c < 2 ^ Suc 7" by simp
    then have "replicate (Suc 7 - length (bin_digits c)) 48 @ bin_digits c
                 = fixed_width_bits (Suc 7) c"
      by (rule format_08b_fixed)
    with that show ?thesis by (simp add: format_08b_def Let_def)
  qed
  with fits show "text_to_binary message = spec_textToBits message"
    by (induction message)
       (simp_all add: text_to_binary_def spec_textToBits_def py_ord_def fits_8_bits_def)
  show "length (text_to_binary message) = 8 * length message"
    using fits by (rule text_to_binary_length)
next
  assume wide: "\<not> fits_8_bits wide"
  show "8 < length (text_to_binary [wide])" using wide by (rule wide_character_bits(2))
  show "list_all is_bit (text_to_binary [wide])" by (rule text_to_binary_bits)
  show "hd (text_to_binary [wide]) = 49" using wide by (rule wide_character_bits(3))
  show "bits_value (text_to_binary [wide]) = int wide" using wide by (rule wide_character_bits(4))
qed

theorem text_to_binary_8_bits_witness:
  "list_all fits_8_bits (lit ''Hi'') \<and> \<not> fits_8_bits 257
   \<and> text_to_binary (lit ''Hi'') = spec_textToBits (lit ''Hi'')
   \<and> length (text_to_binary (lit ''Hi'')) = 8 * length (lit ''Hi'')
   \<and> 8 < length (text_to_binary [257])
   \<and> hd (text_to_binary [257]) = 49
   \<and> bits_value (text_to_binary [257]) = 257"
proof -
  have h: "list_all fits_8_bits (lit ''Hi'')" by (simp add: lit_def fits_8_bits_def)
  have w: "\<not> fits_8_bits 257" by (simp add: fits_8_bits_def)
  from h w text_to_binary_8_bits [of "lit ''Hi''" 257]
  have "text_to_binary (lit ''Hi'') = spec_textToBits (lit ''Hi'')"
    and "length (text_to_binary (lit ''Hi'')) = 8 * length (lit ''Hi'')"
    and "8 < length (text_to_binary [257])"
    and "hd (text_to_binary [257]) = 49"
    and "bits_value (text_to_binary [257]) = int 257"
    by blast+
  with h w show ?thesis by simp
qed

subsection \<open>C5: the chunk size does not change the bits\<close>

text \<open>
  C5. For every non-empty string \<open>s\<close>, the bit string of \<open>process_message_chunks\<close> with
  chunk size 1 equals the one with chunk size \<open>len(s)\<close>; with any chunk size of at least
  1 it is \<open>text_to_binary(s)\<close>.
\<close>

theorem chunking_invariance:
  assumes "s \<noteq> []" and "1 \<le> chunk_size"
  shows "map_sum id fst (process_message_chunks s 1)
           = map_sum id fst (process_message_chunks s (int (length s)))
         \<and> map_sum id fst (process_message_chunks s chunk_size) = Inr (text_to_binary s)"
proof -
  from assms(1) have len: "1 \<le> int (length s)" by (cases s) simp_all
  obtain c1 where r1: "process_message_chunks s 1 = Inr (text_to_binary s, c1)"
    using chunks_bits [of 1 s] by auto
  obtain c2 where r2: "process_message_chunks s (int (length s)) = Inr (text_to_binary s, c2)"
    using chunks_bits [OF len, of s] by auto
  obtain c3 where r3: "process_message_chunks s chunk_size = Inr (text_to_binary s, c3)"
    using chunks_bits [OF assms(2), of s] by auto
  show ?thesis by (simp add: r1 r2 r3)
qed

theorem chunking_invariance_witness:
  "lit ''Hey'' \<noteq> [] \<and> (1::int) \<le> 2
   \<and> map_sum id fst (process_message_chunks (lit ''Hey'') 1)
       = map_sum id fst (process_message_chunks (lit ''Hey'') (int (length (lit ''Hey''))))
   \<and> map_sum id fst (process_message_chunks (lit ''Hey'') 2) = Inr (text_to_binary (lit ''Hey''))"
proof -
  have h: "lit ''Hey'' \<noteq> []" by (simp add: lit_def)
  have c: "(1::int) \<le> 2" by simp
  show ?thesis using h c chunking_invariance [OF h c] by simp
qed

subsection \<open>C6: preparing and measuring a chunk\<close>

text \<open>
  C6. For every vector of flags, the circuit that flips qubit \<open>i\<close> iff flag \<open>i\<close> is set
  and measures all qubits returns, in its single shot, a string \<open>measured\<close> of the same
  length with \<open>measured[i] = flags[n - 1 - i]\<close>, whose reverse is the flags again; and
  \<open>process_chunk(chunk)\<close> returns the bits \<open>text_to_binary(chunk)\<close>.
\<close>

theorem measurement_round_trip:
  "(\<exists>qc. prepare_circuit (map bit_char flags) = Inr qc
        \<and> length (counts_key qc) = length flags
        \<and> (\<forall>i<length flags. counts_key qc ! i = bit_char (flags ! (length flags - 1 - i)))
        \<and> rev (counts_key qc) = map bit_char flags)
   \<and> (\<exists>qc. process_chunk chunk = Inr (text_to_binary chunk, qc))"
proof
  obtain qc where prep: "prepare_circuit (map bit_char flags) = Inr qc"
    and key: "counts_key qc = rev (map (\<lambda>c. bit_char (c = 49)) (map bit_char flags))"
    using prepare_circuit_key by blast
  have "map (\<lambda>c. bit_char (c = 49)) (map bit_char flags) = map bit_char flags"
    by (simp add: bit_char_def)
  with key have key': "counts_key qc = rev (map bit_char flags)" by simp
  then have "\<forall>i<length flags. counts_key qc ! i = bit_char (flags ! (length flags - 1 - i))"
    by (simp add: rev_nth)
  with prep key' show "\<exists>qc. prepare_circuit (map bit_char flags) = Inr qc
        \<and> length (counts_key qc) = length flags
        \<and> (\<forall>i<length flags. counts_key qc ! i = bit_char (flags ! (length flags - 1 - i)))
        \<and> rev (counts_key qc) = map bit_char flags"
    by auto
  show "\<exists>qc. process_chunk chunk = Inr (text_to_binary chunk, qc)"
    by (rule process_chunk_bits)
qed

theorem measurement_round_trip_witness:
  "(\<exists>qc. prepare_circuit (map bit_char [True, False, False]) = Inr qc
        \<and> length (counts_key qc) = length [True, False, False]
        \<and> counts_key qc ! 2 = bit_char True
        \<and> rev (counts_key qc) = map bit_char [True, False, False])
   \<and> (\<exists>qc. process_chunk (lit ''A'') = Inr (lit ''01000001'', qc))"
proof -
  have a: "text_to_binary (lit ''A'') = lit ''01000001''" by code_simp
  show ?thesis
    using measurement_round_trip [of "[True, False, False]" "lit ''A''"]
    unfolding a by fastforce
qed

subsection \<open>C8: exceptions and what happens outside the domain\<close>




subsection \<open>C9: the empty message\<close>

text \<open>
  C9. On the empty message, with any chunk size other than 0 (the default is 3),
  \<open>process_message_chunks\<close> processes no chunk and returns the empty bit string and
  the empty list of circuits, and \<open>quantum_text_encoding\<close> returns the empty string.
\<close>

theorem empty_message:
  assumes "chunk_size \<noteq> 0"
  shows "process_message_chunks [] chunk_size = Inr ([], [])
         \<and> quantum_text_encoding int_rest [] chunk_size = Inr []"
  using assms
  by (simp add: process_message_chunks_def process_message_chunks_loop.simps
        quantum_text_encoding_def binary_to_text_def binary_to_text_loop.simps)

theorem empty_message_witness:
  "(3::int) \<noteq> 0 \<and> process_message_chunks (lit '''') 3 = Inr (lit '''', [])
   \<and> quantum_text_encoding reject_rest (lit '''') 3 = Inr (lit '''')"
proof -
  have c: "(3::int) \<noteq> 0" by simp
  show ?thesis using c empty_message [OF c, of reject_rest] by (simp add: lit_def)
qed


subsection \<open>C7: the bubble sort\<close>

text \<open>
  C7. For every list of integers, \<open>quantum_bubble_sort\<close> returns a list that is sorted in
  non-decreasing order and a permutation of the input, and the argument is not modified:
  the result is a new object, and every object of the store before the call, the
  argument among them, has its old value after it.
\<close>

theorem quantum_bubble_sort_sorts:
  assumes "arr < length h"
  shows "\<exists>r h'. quantum_bubble_sort h arr = Inr (r, h')
            \<and> sorted (h' ! r) \<and> mset (h' ! r) = mset (h ! arr)
            \<and> r \<noteq> arr \<and> h' ! arr = h ! arr \<and> take (length h) h' = h"
proof -
  from bubble_sort_result [OF assms] obtain ys where
    "quantum_bubble_sort h arr = Inr (length h, h @ [ys])"
    and "sorted ys" and "mset ys = mset (h ! arr)"
    by blast
  with assms show ?thesis by (simp add: nth_append)
qed

theorem quantum_bubble_sort_sorts_witness:
  "(0::nat) < length [[4, 2, 47, 1, 5, 51, 1::int]]
   \<and> (\<exists>r h'. quantum_bubble_sort [[4, 2, 47, 1, 5, 51, 1]] 0 = Inr (r, h')
         \<and> sorted (h' ! r) \<and> mset (h' ! r) = mset ([[4, 2, 47, 1, 5, 51, 1]] ! 0)
         \<and> r \<noteq> 0 \<and> h' ! 0 = [[4, 2, 47, 1, 5, 51, 1]] ! 0
         \<and> take (length [[4, 2, 47, 1, 5, 51, 1::int]]) h' = [[4, 2, 47, 1, 5, 51, 1]])
   \<and> quantum_bubble_sort [[4, 2, 47, 1, 5, 51, 1]] 0
       = Inr (1, [[4, 2, 47, 1, 5, 51, 1], [1, 1, 2, 4, 5, 47, 51]])"
proof -
  have h: "(0::nat) < length [[4, 2, 47, 1, 5, 51, 1::int]]" by simp
  have run: "quantum_bubble_sort [[4, 2, 47, 1, 5, 51, 1]] 0
       = Inr (1, [[4, 2, 47, 1, 5, 51, 1], [1, 1, 2, 4, 5, 47, 51]])"
    by code_simp
  show ?thesis
    by (intro conjI) (rule h, rule quantum_bubble_sort_sorts [OF h], rule run)
qed

end
